theory Spec2Isabelle
  imports Complex_Main "HOL-Library.Stream" "HOL-Library.Word"
begin

section \<open>Strings\<close>

text \<open>
  A JavaScript string is a sequence of UTF-16 code units: a list of 16-bit words. \<open>js\<close>
  writes a literal as such a string.
\<close>

type_synonym jsstring = "16 word list"

definition js :: "string \<Rightarrow> jsstring" where
  "js s = map (\<lambda>c. of_nat (of_char c)) s"

definition is_space :: "16 word \<Rightarrow> bool" where
  \<comment> \<open>WhiteSpace and LineTerminator of ECMAScript, which \<^verbatim>\<open>trim\<close> strips and \<^verbatim>\<open>\s\<close> matches:
      TAB, LF, VT, FF, CR, SPACE, U+00A0, U+1680, U+2000 to U+200A, U+2028, U+2029, U+202F,
      U+205F, U+3000 and U+FEFF.\<close>
  "is_space c =
     (unat c \<in> {9, 10, 11, 12, 13, 32, 160, 5760, 8192, 8193, 8194, 8195, 8196, 8197, 8198,
                8199, 8200, 8201, 8202, 8232, 8233, 8239, 8287, 12288, 65279})"

definition trim :: "jsstring \<Rightarrow> jsstring" where
  "trim s = rev (dropWhile is_space (rev (dropWhile is_space s)))"

text \<open>\<^verbatim>\<open>s.replace(/\s+/g, " ")\<close>: every maximal run of white space becomes one space.\<close>

function collapse_ws :: "jsstring \<Rightarrow> jsstring" where
  "collapse_ws [] = []"
| "collapse_ws (c # cs) =
     (if is_space c then 32 # collapse_ws (dropWhile is_space cs)
      else c # collapse_ws cs)"
  by pat_completeness auto
termination
  by (relation "measure length") (auto simp: length_dropWhile_le less_Suc_eq_le)

text \<open>
  \<^verbatim>\<open>String.prototype.toLowerCase\<close> is a built-in of the language, with the case tables and
  the context rules of Unicode: it is the parameter \<open>lc\<close> of the matcher. Every statement
  about the matcher below holds for every \<open>lc\<close>.
\<close>

definition normalize :: "(jsstring \<Rightarrow> jsstring) \<Rightarrow> jsstring \<Rightarrow> jsstring" where
  "normalize lc s = collapse_ws (lc (trim s))"

definition checkAnswer :: "(jsstring \<Rightarrow> jsstring) \<Rightarrow> jsstring \<Rightarrow> jsstring \<Rightarrow> bool" where
  "checkAnswer lc user correct = (normalize lc user = normalize lc correct)"

text \<open>
  For the concrete examples: what \<^verbatim>\<open>toLowerCase\<close> computes on a string whose code units
  are all below 256. There it works unit by unit: A to Z and the capitals U+00C0 to
  U+00DE (without the multiplication sign U+00D7) move up by 32, every other unit is kept.
\<close>

definition lower_unit :: "16 word \<Rightarrow> 16 word" where
  "lower_unit c =
     (let n = unat c
      in if (65 \<le> n \<and> n \<le> 90) \<or> (192 \<le> n \<and> n \<le> 222 \<and> n \<noteq> 215)
         then c + 32 else c)"

definition lower_latin1 :: "jsstring \<Rightarrow> jsstring" where
  "lower_latin1 s = map lower_unit s"

text \<open>
  For a lower-casing that works unit by unit: the words of a string are its maximal runs
  of units that are not white space, in order; \<open>unwords\<close> puts one space between words.
\<close>

function words_of :: "jsstring \<Rightarrow> jsstring list" where
  "words_of [] = []"
| "words_of (c # cs) =
     (if is_space c then words_of cs
      else (c # takeWhile (\<lambda>x. \<not> is_space x) cs)
             # words_of (dropWhile (\<lambda>x. \<not> is_space x) cs))"
  by pat_completeness auto
termination
  by (relation "measure length") (auto simp: length_dropWhile_le less_Suc_eq_le)

fun unwords :: "jsstring list \<Rightarrow> jsstring" where
  "unwords [] = []"
| "unwords [w] = w"
| "unwords (w # v # ws) = w @ 32 # unwords (v # ws)"

text \<open>A word: not empty, and without white space.\<close>

definition good_word :: "jsstring \<Rightarrow> bool" where
  "good_word w = (w \<noteq> [] \<and> list_all (\<lambda>x. \<not> is_space x) w)"


section \<open>Random selection\<close>

text \<open>
  \<^verbatim>\<open>Math.random()\<close> is an input of the model: a function that draws takes the number
  drawn, and a function that draws repeatedly takes the stream of numbers it will be given.
  The numbers are reals and the product is exact. Reading an array out of range gives
  \<^verbatim>\<open>undefined\<close>, which is \<^const>\<open>None\<close> here.
\<close>

definition pickRandom :: "real \<Rightarrow> 'a list \<Rightarrow> 'a option" where
  "pickRandom r items =
     (let idx = \<lfloor>r * real (length items)\<rfloor>
      in if 0 \<le> idx \<and> idx < int (length items) then Some (items ! nat idx) else None)"

text \<open>
  The product in \<^verbatim>\<open>pickRandom\<close> is a binary64 product. For the bound on the index the
  rounding is made explicit: \<open>rne\<close> rounds to the nearest integer, ties to even, and
  \<open>binary64\<close> rounds a non-negative real below the overflow threshold to the nearest
  binary64 number (53 significant bits, smallest exponent -1022).
\<close>

definition rne :: "real \<Rightarrow> int" where
  "rne q =
     (let f = \<lfloor>q\<rfloor>
      in if q - of_int f < 1 / 2 then f
         else if 1 / 2 < q - of_int f then f + 1
         else if even f then f else f + 1)"

definition binary64 :: "real \<Rightarrow> real" where
  "binary64 x =
     (if x = 0 then 0
      else
        (let e = max \<lfloor>log 2 x\<rfloor> (- 1022);
             u = 2 powr of_int (e - 52)
         in u * of_int (rne (x / u))))"

section \<open>Exercises and the session\<close>

text \<open>
  Modelled from the spec: the type \<^verbatim>\<open>Exercise\<close> (\<^verbatim>\<open>src/types/Exercise\<close> is not among the
  sources). Its fields are those the data model lists and the components read;
  the optional ones are options.
\<close>

record exercise =
  id_ex :: jsstring
  type_ex :: jsstring
  prompt :: jsstring
  answer :: jsstring
  choices :: "jsstring list option"
  explanation :: "jsstring option"

datatype error = TypeError

text \<open>
  The outcome of a handler that may call \<^verbatim>\<open>nextRandom\<close>: \<^const>\<open>None\<close> when the
  retry loop never ends, \<open>Some (Inl e)\<close> when an exception is thrown, \<open>Some (Inr s)\<close>
  when it returns.
\<close>

type_synonym 'a run = "(error + 'a) option"

record app =
  exercises :: "exercise list"
  current :: exercise

text \<open>
  The loop \<^verbatim>\<open>while (next.id === current.id) next = pickRandom(exercises)\<close>. Reading
  \<^verbatim>\<open>.id\<close> of \<^verbatim>\<open>undefined\<close> throws a TypeError.
\<close>

partial_function (option) retry ::
  "exercise list \<Rightarrow> exercise \<Rightarrow> exercise \<Rightarrow> real stream \<Rightarrow> exercise run" where
  "retry exs cur nxt rs =
     (if id_ex nxt = id_ex cur
      then (case pickRandom (shd rs) exs of
              None \<Rightarrow> Some (Inl TypeError)
            | Some n \<Rightarrow> retry exs cur n (stl rs))
      else Some (Inr nxt))"

definition nextRandom :: "real stream \<Rightarrow> app \<Rightarrow> app run" where
  "nextRandom rs a =
     (if length (exercises a) \<le> 1 then Some (Inr a)
      else (case pickRandom (shd rs) (exercises a) of
              None \<Rightarrow> Some (Inl TypeError)
            | Some nxt \<Rightarrow>
                (case retry (exercises a) (current a) nxt (stl rs) of
                   None \<Rightarrow> None
                 | Some (Inl e) \<Rightarrow> Some (Inl e)
                 | Some (Inr n) \<Rightarrow> Some (Inr (a\<lparr>current := n\<rparr>)))))"

section \<open>The exercise card\<close>

datatype effect = WowSuccess | Confetti | ErrorPulse

text \<open>
  The handlers that reach the matcher take \<open>lc\<close>, the lower-casing of the language, as
  their first argument.
\<close>

text \<open>
  The three \<^verbatim>\<open>useState\<close> cells of the card, and the visual effects its handlers have
  started so far (the DOM nodes are taken to be mounted).
\<close>

record card =
  value_st :: jsstring
  checked :: bool
  isCorrect :: "bool option"
  effects :: "effect list"

definition setValue :: "jsstring \<Rightarrow> card \<Rightarrow> card" where
  "setValue v c = c\<lparr>value_st := v\<rparr>"

text \<open>The body of the effect that runs when the exercise changes (lines 45 to 47).\<close>

definition resetEffect :: "card \<Rightarrow> card" where
  "resetEffect c = c\<lparr>value_st := [], checked := False, isCorrect := None\<rparr>"

text \<open>The dependency array \<^verbatim>\<open>[exercise.id, exercise.choices?.length]\<close>.\<close>

definition deps :: "exercise \<Rightarrow> jsstring \<times> nat option" where
  "deps e = (id_ex e, map_option length (choices e))"

text \<open>A render with a new \<^verbatim>\<open>exercise\<close> prop runs the effect when a dependency changed.\<close>

definition rerender :: "exercise \<Rightarrow> exercise \<Rightarrow> card \<Rightarrow> card" where
  "rerender old new c = (if deps new = deps old then c else resetEffect c)"

definition handleCheck :: "(jsstring \<Rightarrow> jsstring) \<Rightarrow> exercise \<Rightarrow> card \<Rightarrow> card" where
  "handleCheck lc e c =
     (let ok = checkAnswer lc (value_st c) (answer e);
          c' = c\<lparr>isCorrect := Some ok, checked := True\<rparr>
      in if ok then c'\<lparr>effects := effects c @ [WowSuccess, Confetti]\<rparr>
         else c'\<lparr>effects := effects c @ [ErrorPulse]\<rparr>)"

text \<open>
  The Check button: \<^verbatim>\<open>onClick={handleCheck} disabled={!value.trim()}\<close>. A disabled
  button receives no click.
\<close>

definition clickCheck :: "(jsstring \<Rightarrow> jsstring) \<Rightarrow> exercise \<Rightarrow> card \<Rightarrow> card" where
  "clickCheck lc e c = (if trim (value_st c) = [] then c else handleCheck lc e c)"

text \<open>\<^verbatim>\<open>onNext\<close> is \<^verbatim>\<open>nextRandom\<close> of the parent, followed by the render it causes.\<close>

definition onNext :: "real stream \<Rightarrow> app \<times> card \<Rightarrow> (app \<times> card) run" where
  "onNext rs s =
     (case nextRandom rs (fst s) of
        None \<Rightarrow> None
      | Some (Inl e) \<Rightarrow> Some (Inl e)
      | Some (Inr a') \<Rightarrow> Some (Inr (a', rerender (current (fst s)) (current a') (snd s))))"

definition handleEnter ::
  "(jsstring \<Rightarrow> jsstring) \<Rightarrow> real stream \<Rightarrow> app \<times> card \<Rightarrow> (app \<times> card) run" where
  "handleEnter lc rs s =
     (if \<not> checked (snd s)
      then (if trim (value_st (snd s)) \<noteq> []
            then Some (Inr (fst s, handleCheck lc (current (fst s)) (snd s)))
            else Some (Inr s))
      else onNext rs s)"

text \<open>
  \<^verbatim>\<open>Number(e.key)\<close>. A key value is one character or a key name, and no key name is a
  numeric literal: a digit gives its value, white space gives 0, everything else is NaN
  (\<^const>\<open>None\<close>).
\<close>

definition Number_key :: "jsstring \<Rightarrow> nat option" where
  "Number_key k =
     (case k of
        [] \<Rightarrow> Some 0
      | [c] \<Rightarrow>
          (let n = unat c
           in if 48 \<le> n \<and> n \<le> 57 then Some (n - 48)
              else if is_space c then Some 0 else None)
      | _ \<Rightarrow> None)"

text \<open>\<^verbatim>\<open>Array.prototype.findIndex\<close>: the first index that satisfies, or -1.\<close>

fun findIndex :: "('a \<Rightarrow> bool) \<Rightarrow> 'a list \<Rightarrow> int" where
  "findIndex P [] = - 1"
| "findIndex P (x # xs) =
     (if P x then 0 else (let i = findIndex P xs in if i < 0 then - 1 else i + 1))"

text \<open>
  The arrow keys (lines 216 to 233). Both operands of \<^verbatim>\<open>%\<close> are non-negative here, where
  the remainder of JavaScript is \<open>mod\<close>.
\<close>

definition arrow :: "jsstring \<Rightarrow> jsstring list \<Rightarrow> card \<Rightarrow> card" where
  "arrow key cs c =
     (let len = int (length cs)
      in if len = 0 then c
         else
           (let currentIndex = findIndex (\<lambda>ch. ch = value_st c) cs;
                cur = (if currentIndex \<ge> 0 then currentIndex else 0);
                nxt = (if key = js ''ArrowDown'' then (cur + 1) mod len
                       else (cur - 1 + len) mod len)
            in setValue (cs ! nat nxt) c))"

definition handleKeyDown ::
  "(jsstring \<Rightarrow> jsstring) \<Rightarrow> jsstring \<Rightarrow> real stream \<Rightarrow> app \<times> card \<Rightarrow> (app \<times> card) run" where
  "handleKeyDown lc key rs s =
     (if key = js ''Enter'' then handleEnter lc rs s
      else
        (case choices (current (fst s)) of
           None \<Rightarrow> Some (Inr s)
         | Some cs \<Rightarrow>
             if cs = [] then Some (Inr s)
             else if (case Number_key key of
                        None \<Rightarrow> False
                      | Some n \<Rightarrow> n \<ge> 1 \<and> n \<le> length cs)
             then Some (Inr (fst s, setValue (cs ! (the (Number_key key) - 1)) (snd s)))
             else if key = js ''ArrowDown'' \<or> key = js ''ArrowUp''
             then Some (Inr (fst s, arrow key cs (snd s)))
             else Some (Inr s)))"

section \<open>The confetti animation\<close>

text \<open>
  One particle of \<^verbatim>\<open>shootConfetti\<close>. Coordinates, speeds and angles are reals; the
  counters are integers.
\<close>

record piece =
  x_p :: real
  y_p :: real
  vx :: real
  vy :: real
  size_p :: real
  rot :: real
  vr :: real
  life :: nat
  ttl :: int
  hue :: int

text \<open>What \<^verbatim>\<open>fillRect\<close> has put on the canvas for one particle.\<close>

record rect =
  r_alpha :: real
  r_x :: real
  r_y :: real
  r_rot :: real
  r_hue :: int
  r_w :: real
  r_h :: real

record anim =
  width :: int
  height :: int
  pieces :: "piece list"
  frame :: nat
  surface :: "rect list"
  pending :: bool

text \<open>The object literal of line 82 draws seven numbers, in the order of its fields.\<close>

definition new_piece :: "int \<Rightarrow> int \<Rightarrow> real stream \<Rightarrow> piece" where
  "new_piece w h rs =
     \<lparr>x_p = real_of_int w / 2,
      y_p = real_of_int h / 3,
      vx = (rs !! 0 - 0.5) * 10,
      vy = rs !! 1 * (- 10) - 4,
      size_p = rs !! 2 * 6 + 4,
      rot = rs !! 3 * pi,
      vr = (rs !! 4 - 0.5) * 0.25,
      life = 0,
      ttl = 90 + \<lfloor>rs !! 5 * 60\<rfloor>,
      hue = \<lfloor>rs !! 6 * 360\<rfloor>\<rparr>"

fun spawn :: "nat \<Rightarrow> int \<Rightarrow> int \<Rightarrow> real stream \<Rightarrow> piece list" where
  "spawn 0 w h rs = []"
| "spawn (Suc n) w h rs = new_piece w h rs # spawn n w h (sdrop 7 rs)"

text \<open>
  \<^verbatim>\<open>shootConfetti\<close>, given the bounding rectangle of the card, or \<^const>\<open>None\<close> when the
  canvas, the card or the drawing context is missing. Setting the size of the canvas
  clears it; the last line requests the first frame.
\<close>

definition shootConfetti :: "(real \<times> real) option \<Rightarrow> real stream \<Rightarrow> anim option" where
  "shootConfetti bounds rs =
     (case bounds of
        None \<Rightarrow> None
      | Some (rw, rh) \<Rightarrow>
          Some \<lparr>width = \<lfloor>rw\<rfloor>, height = \<lfloor>rh\<rfloor>,
                pieces = spawn 120 \<lfloor>rw\<rfloor> \<lfloor>rh\<rfloor> rs,
                frame = 0, surface = [], pending = True\<rparr>)"

definition move :: "piece \<Rightarrow> piece" where
  "move p =
     (let vy' = vy p + 0.35
      in p\<lparr>life := life p + 1, vy := vy', x_p := x_p p + vx p, y_p := y_p p + vy',
           rot := rot p + vr p\<rparr>)"

definition alpha :: "piece \<Rightarrow> real" where
  "alpha p = 1 - real (life p) / real_of_int (ttl p)"

definition paint :: "piece \<Rightarrow> rect" where
  "paint p =
     \<lparr>r_alpha = alpha p, r_x = x_p p, r_y = y_p p, r_rot = rot p, r_hue = hue p,
      r_w = size_p p, r_h = size_p p * 0.65\<rparr>"

text \<open>
  One call of \<^verbatim>\<open>tick\<close>: the canvas is cleared, every particle moves and the visible
  ones are drawn; then either the next frame is requested or the canvas is cleared.
\<close>

definition tick :: "anim \<Rightarrow> anim" where
  "tick a =
     (let f = frame a + 1;
          ps = map move (pieces a);
          drawn = map paint (filter (\<lambda>p. \<not> alpha p \<le> 0) ps)
      in if f < 140
         then a\<lparr>pieces := ps, frame := f, surface := drawn, pending := True\<rparr>
         else a\<lparr>pieces := ps, frame := f, surface := [], pending := False\<rparr>)"

text \<open>The browser calls \<^verbatim>\<open>tick\<close> once for every frame that was requested.\<close>

function animate :: "anim \<Rightarrow> anim" where
  "animate a = (if pending a then animate (tick a) else a)"
  by pat_completeness auto
termination
  by (relation "measure (\<lambda>a. if pending a then Suc (140 - frame a) else 0)")
     (auto simp: tick_def Let_def)

declare animate.simps [simp del]

section \<open>Concrete exercises\<close>

text \<open>The state of a card when it is mounted (the initial values of lines 22 to 24).\<close>

definition card0 :: card where
  "card0 = \<lparr>value_st = [], checked = False, isCorrect = None, effects = []\<rparr>"

definition ex_dom :: exercise where
  "ex_dom = \<lparr>id_ex = js ''e1'', type_ex = js ''meaning'', prompt = js ''house'',
             answer = js ''dom'', choices = Some [js ''dom'', js ''kot'', js ''pies''],
             explanation = None\<rparr>"

definition ex_kot :: exercise where
  "ex_kot = \<lparr>id_ex = js ''e2'', type_ex = js ''translate'', prompt = js ''cat'',
             answer = js ''kot'', choices = None, explanation = Some (js ''kot is a cat'')\<rparr>"

definition app_one :: app where
  "app_one = \<lparr>exercises = [ex_dom], current = ex_dom\<rparr>"

definition app_two :: app where
  "app_two = \<lparr>exercises = [ex_dom, ex_kot], current = ex_dom\<rparr>"

text \<open>A card holding only blanks, and the card after dom was entered and checked.\<close>

definition card_blank :: card where
  "card_blank = setValue (js ''   '') card0"

definition card_checked :: card where
  "card_checked = clickCheck lower_latin1 ex_dom (setValue (js ''dom'') card0)"

text \<open>Draws that reach both indices of a pool of two: first 0, then 1/2 for ever.\<close>

definition rs_fair :: "real stream" where
  "rs_fair = 0 ## sconst (1 / 2)"

section \<open>Keyboard navigation\<close>

text \<open>Literals: \<open>js\<close> is injective.\<close>

lemma js_inject [simp]: "js a = js b \<longleftrightarrow> a = b"
proof -
  have "inj (\<lambda>c::char. (of_nat (of_char c) :: 16 word))"
  proof (rule injI)
    fix x y :: char
    assume "(of_nat (of_char x) :: 16 word) = of_nat (of_char y)"
    then have "unat (of_nat (of_char x) :: 16 word) = unat (of_nat (of_char y) :: 16 word)"
      by simp
    moreover have "of_char x < (256::nat)" "of_char y < (256::nat)" by simp_all
    ultimately have "(of_char x :: nat) = of_char y" by (simp add: unat_of_nat)
    then show "x = y" by simp
  qed
  then show ?thesis by (simp add: js_def inj_map_eq_map)
qed

lemma js_eq_Nil [simp]: "js s = [] \<longleftrightarrow> s = []" "[] = js s \<longleftrightarrow> s = []"
  by (auto simp: js_def)


lemma findIndex_none: "\<forall>x\<in>set xs. \<not> P x \<Longrightarrow> findIndex P xs = - 1"
  by (induction xs) auto

lemma findIndex_nonneg_or: "findIndex P xs = - 1 \<or> (0 \<le> findIndex P xs \<and> findIndex P xs < int (length xs))"
  by (induction xs) (auto simp: Let_def)

lemma findIndex_distinct: "distinct xs \<Longrightarrow> i < length xs \<Longrightarrow> findIndex (\<lambda>c. c = xs ! i) xs = int i"
proof (induction xs arbitrary: i)
  case Nil
  then show ?case by simp
next
  case (Cons a xs)
  show ?case
  proof (cases i)
    case 0
    then show ?thesis by simp
  next
    case (Suc j)
    with Cons.prems have j: "j < length xs" and d: "distinct xs" and na: "a \<noteq> xs ! j"
      by auto
    from Cons.IH[OF d j] Suc na show ?thesis by (auto simp: Let_def)
  qed
qed

lemma findIndex_hd: "xs \<noteq> [] \<Longrightarrow> findIndex (\<lambda>c. c = xs ! 0) xs = 0"
  by (cases xs) auto

lemma arrow_unselected:
  assumes "cs \<noteq> []" "value_st c \<notin> set cs"
  shows "arrow (js ''ArrowDown'') cs c = setValue (cs ! (1 mod length cs)) c"
    and "arrow (js ''ArrowUp'') cs c = setValue (cs ! (length cs - 1)) c"
proof -
  have f: "findIndex (\<lambda>ch. ch = value_st c) cs = - 1"
    using assms(2) by (intro findIndex_none) auto
  have l: "0 < length cs" using assms(1) by simp
  have "nat (1 mod int (length cs)) = 1 mod length cs"
    by (metis nat_int of_nat_1 zmod_int)
  then show "arrow (js ''ArrowDown'') cs c = setValue (cs ! (1 mod length cs)) c"
    using l by (simp add: arrow_def f js_def)
  have "- 1 mod int (length cs) = int (length cs) - 1"
    using l by (intro zmod_minus1) simp
  moreover have "nat (int (length cs) - 1) = length cs - 1" by simp
  ultimately show "arrow (js ''ArrowUp'') cs c = setValue (cs ! (length cs - 1)) c"
    using l by (simp add: arrow_def f js_def)
qed

lemma arrow_selected:
  assumes "distinct cs" "i < length cs" "value_st c = cs ! i"
  shows "arrow (js ''ArrowDown'') cs c = setValue (cs ! ((i + 1) mod length cs)) c"
    and "arrow (js ''ArrowUp'') cs c = setValue (cs ! ((i + length cs - 1) mod length cs)) c"
proof -
  have f: "findIndex (\<lambda>ch. ch = value_st c) cs = int i"
    using findIndex_distinct[OF assms(1,2)] assms(3) by simp
  have l: "cs \<noteq> []" using assms(2) by auto
  have "nat ((int i + 1) mod int (length cs)) = (i + 1) mod length cs"
    by (metis nat_int of_nat_1 of_nat_add zmod_int)
  then show "arrow (js ''ArrowDown'') cs c = setValue (cs ! ((i + 1) mod length cs)) c"
    using l by (simp add: arrow_def f js_def)
  have "int i - 1 + int (length cs) = int (i + length cs - 1)"
    using assms(2) by simp
  then have "nat ((int i - 1 + int (length cs)) mod int (length cs)) = (i + length cs - 1) mod length cs"
    by (metis nat_int zmod_int)
  then show "arrow (js ''ArrowUp'') cs c = setValue (cs ! ((i + length cs - 1) mod length cs)) c"
    using l by (simp add: arrow_def f js_def)
qed

lemma arrow_up_first:
  assumes "cs \<noteq> []" "value_st c = cs ! 0"
  shows "arrow (js ''ArrowUp'') cs c = setValue (cs ! (length cs - 1)) c"
proof -
  have f: "findIndex (\<lambda>ch. ch = value_st c) cs = 0"
    using findIndex_hd[OF assms(1)] assms(2) by simp
  have l: "0 < length cs" using assms(1) by simp
  have "- 1 mod int (length cs) = int (length cs) - 1"
    using l by (intro zmod_minus1) simp
  moreover have "nat (int (length cs) - 1) = length cs - 1" by simp
  ultimately show ?thesis
    using l by (simp add: arrow_def f js_def)
qed

lemma handleKeyDown_arrow:
  assumes "choices (current a) = Some cs" "cs \<noteq> []"
    "key = js ''ArrowDown'' \<or> key = js ''ArrowUp''"
  shows "handleKeyDown lc key rs (a, c) = Some (Inr (a, arrow key cs c))"
  using assms by (auto simp: handleKeyDown_def Number_key_def js_def)

text \<open>
  Claim C1, as stated, at three choices and no selection: \<^verbatim>\<open>ArrowDown\<close> does not select
  the choice at index 0. No selection counts as index 0 and the key moves on from there,
  so the choice at index 1 is selected.
\<close>

theorem arrow_keys_counterexample:
  "handleKeyDown lower_latin1 (js ''ArrowDown'') (sconst 0) (app_one, card0)
     = Some (Inr (app_one, card0\<lparr>value_st := js ''kot''\<rparr>))
   \<and> handleKeyDown lower_latin1 (js ''ArrowDown'') (sconst 0) (app_one, card0)
     \<noteq> Some (Inr (app_one, card0\<lparr>value_st := [js ''dom'', js ''kot'', js ''pies''] ! 0\<rparr>))"
  by (simp add: handleKeyDown_def app_one_def ex_dom_def card0_def arrow_def Number_key_def
      setValue_def js_def)

text \<open>
  Claim C1, amended. In multiple-choice mode, with no choice selected, \<^verbatim>\<open>ArrowDown\<close>
  selects index 1 (modulo the number of choices) and \<^verbatim>\<open>ArrowUp\<close> the last index; from
  the selected index \<open>i\<close> of distinct choices \<^verbatim>\<open>ArrowDown\<close> selects \<open>i + 1\<close> and
  \<^verbatim>\<open>ArrowUp\<close> selects \<open>i - 1\<close>, both cyclically; \<^verbatim>\<open>ArrowUp\<close> from index 0 wraps to the
  last index.
\<close>

theorem arrow_keys:
  assumes "choices (current a) = Some cs" and "cs \<noteq> []"
  shows "(value_st c \<notin> set cs \<longrightarrow>
            handleKeyDown lc (js ''ArrowDown'') rs (a, c)
              = Some (Inr (a, setValue (cs ! (1 mod length cs)) c))
          \<and> handleKeyDown lc (js ''ArrowUp'') rs (a, c)
              = Some (Inr (a, setValue (cs ! (length cs - 1)) c)))
       \<and> (i < length cs \<and> distinct cs \<and> value_st c = cs ! i \<longrightarrow>
            handleKeyDown lc (js ''ArrowDown'') rs (a, c)
              = Some (Inr (a, setValue (cs ! ((i + 1) mod length cs)) c))
          \<and> handleKeyDown lc (js ''ArrowUp'') rs (a, c)
              = Some (Inr (a, setValue (cs ! ((i + length cs - 1) mod length cs)) c)))
       \<and> (value_st c = cs ! 0 \<longrightarrow>
            handleKeyDown lc (js ''ArrowUp'') rs (a, c)
              = Some (Inr (a, setValue (cs ! (length cs - 1)) c)))"
  using assms arrow_selected [of cs i c]
  by (simp add: handleKeyDown_arrow arrow_unselected arrow_up_first)

text \<open>
  With the three choices dom, kot, pies: \<^verbatim>\<open>ArrowDown\<close> from no selection gives kot, again
  gives pies; \<^verbatim>\<open>ArrowUp\<close> from dom, and from no selection, gives pies.
\<close>

theorem arrow_keys_witness:
  "handleKeyDown lower_latin1 (js ''ArrowDown'') (sconst 0) (app_one, card0)
     = Some (Inr (app_one, setValue (js ''kot'') card0))
   \<and> handleKeyDown lower_latin1 (js ''ArrowDown'') (sconst 0)
         (app_one, setValue (js ''kot'') card0)
     = Some (Inr (app_one, setValue (js ''pies'') card0))
   \<and> handleKeyDown lower_latin1 (js ''ArrowUp'') (sconst 0)
         (app_one, setValue (js ''dom'') card0)
     = Some (Inr (app_one, setValue (js ''pies'') card0))
   \<and> handleKeyDown lower_latin1 (js ''ArrowUp'') (sconst 0) (app_one, card0)
     = Some (Inr (app_one, setValue (js ''pies'') card0))"
proof -
  let ?cs = "[js ''dom'', js ''kot'', js ''pies'']"
  have ch: "choices (current app_one) = Some ?cs"
    by (simp add: app_one_def ex_dom_def)
  have ne: "?cs \<noteq> []" by simp
  have un: "value_st card0 \<notin> set ?cs"
    by (simp add: card0_def js_def)
  have d: "distinct ?cs" by (simp add: js_def)
  note t = arrow_keys [OF ch ne, where lc = lower_latin1 and rs = "sconst 0"]
  have k: "js ''kot'' = ?cs ! 1" by simp
  from t [where c = card0] un
  have 1: "handleKeyDown lower_latin1 (js ''ArrowDown'') (sconst 0) (app_one, card0)
     = Some (Inr (app_one, setValue (js ''kot'') card0))"
    and 4: "handleKeyDown lower_latin1 (js ''ArrowUp'') (sconst 0) (app_one, card0)
     = Some (Inr (app_one, setValue (js ''pies'') card0))"
    by simp_all
  from t [where c = "setValue (js ''kot'') card0" and i = 1] d k
  have 2: "handleKeyDown lower_latin1 (js ''ArrowDown'') (sconst 0)
         (app_one, setValue (js ''kot'') card0)
     = Some (Inr (app_one, setValue (js ''pies'') card0))"
    by (simp add: setValue_def)
  from t [where c = "setValue (js ''dom'') card0"]
  have 3: "handleKeyDown lower_latin1 (js ''ArrowUp'') (sconst 0)
         (app_one, setValue (js ''dom'') card0)
     = Some (Inr (app_one, setValue (js ''pies'') card0))"
    by (simp add: setValue_def)
  from 1 2 3 4 show ?thesis by simp
qed


section \<open>Checking an answer\<close>

lemma trim_blank: "trim (js ''   '') = []"
  by (simp add: trim_def is_space_def js_def)

lemma trim_dom: "trim (js ''dom'') = js ''dom''"
  by (simp add: trim_def is_space_def js_def)

lemma trim_kot: "trim (js ''kot'') = js ''kot''"
  by (simp add: trim_def is_space_def js_def)

lemma normalize_dom: "normalize lower_latin1 (js ''dom'') = js ''dom''"
  by (simp add: normalize_def trim_dom lower_latin1_def)
     (simp add: js_def lower_unit_def is_space_def)

lemma normalize_kot: "normalize lower_latin1 (js ''kot'') = js ''kot''"
  by (simp add: normalize_def trim_kot lower_latin1_def)
     (simp add: js_def lower_unit_def is_space_def)

lemma dom_not_kot: "js ''kot'' \<noteq> js ''dom''"
  by (simp add: js_def)

lemma card_checked_eq:
  "card_checked = \<lparr>value_st = js ''dom'', checked = True, isCorrect = Some True,
                    effects = [WowSuccess, Confetti]\<rparr>"
  by (simp add: card_checked_def clickCheck_def setValue_def card0_def trim_dom handleCheck_def
      checkAnswer_def ex_dom_def)

text \<open>
  Claim C2. In every state whose value is empty after trimming, the check operation does
  nothing: the Check button is disabled, and \<^verbatim>\<open>Enter\<close> on a card that is not checked
  returns the state as it was. So \<^verbatim>\<open>checked\<close> is not set and \<^verbatim>\<open>isCorrect\<close> stays as it is.
\<close>

theorem check_empty_noop:
  assumes "trim (value_st c) = []"
  shows "clickCheck lc e c = c
       \<and> (\<not> checked c \<longrightarrow> handleKeyDown lc (js ''Enter'') rs (a, c) = Some (Inr (a, c)))"
  using assms by (simp add: clickCheck_def handleKeyDown_def handleEnter_def)

text \<open>The example of the specification: a new card, three blanks entered, then the check.\<close>

theorem check_empty_noop_witness:
  "trim (value_st card_blank) = [] \<and> \<not> checked card_blank \<and> isCorrect card_blank = None
   \<and> clickCheck lower_latin1 ex_dom card_blank = card_blank
   \<and> handleKeyDown lower_latin1 (js ''Enter'') (sconst 0) (app_one, card_blank)
       = Some (Inr (app_one, card_blank))"
proof -
  have t: "trim (value_st card_blank) = []"
    by (simp add: card_blank_def setValue_def trim_blank)
  have n: "\<not> checked card_blank" "isCorrect card_blank = None"
    by (simp_all add: card_blank_def setValue_def card0_def)
  from check_empty_noop [OF t, where lc = lower_latin1 and e = ex_dom and rs = "sconst 0"
      and a = app_one] t n
  show ?thesis by simp
qed

text \<open>
  The part of claim C3 that holds: \<^verbatim>\<open>setValue\<close> touches neither \<^verbatim>\<open>isCorrect\<close> nor
  \<^verbatim>\<open>checked\<close>.
\<close>

lemma setValue_keeps_result:
  "isCorrect (setValue v c) = isCorrect c \<and> checked (setValue v c) = checked c"
  by (simp add: setValue_def)

text \<open>
  Claim C3: once a card is checked, a later \<^verbatim>\<open>setValue\<close> or check leaves \<^verbatim>\<open>isCorrect\<close> as
  it is, and a check on a checked card does nothing. The code at the failing input: dom is
  entered and checked (correct), then kot is entered and the Check button, which only an
  empty trimmed value disables, is pressed again; \<^verbatim>\<open>handleCheck\<close> runs a second time and
  \<^verbatim>\<open>isCorrect\<close> changes from true to false.
\<close>

theorem recheck_changes_isCorrect:
  "checked card_checked \<and> isCorrect card_checked = Some True
   \<and> trim (value_st (setValue (js ''kot'') card_checked)) = js ''kot''
   \<and> isCorrect (clickCheck lower_latin1 ex_dom (setValue (js ''kot'') card_checked))
       = Some False"
  by (simp add: card_checked_eq clickCheck_def setValue_def trim_kot trim_dom handleCheck_def
      checkAnswer_def normalize_dom normalize_kot ex_dom_def dom_not_kot)

text \<open>
  Claim C6. \<^verbatim>\<open>Enter\<close> on a card that is not checked and whose trimmed value is not empty
  performs the check; on a card that is not checked and whose trimmed value is empty it
  does nothing; on a checked card it calls \<^verbatim>\<open>onNext\<close>.
\<close>

theorem enter_key:
  "(\<not> checked c \<and> trim (value_st c) \<noteq> [] \<longrightarrow>
      handleKeyDown lc (js ''Enter'') rs (a, c) = Some (Inr (a, clickCheck lc (current a) c))
      \<and> clickCheck lc (current a) c = handleCheck lc (current a) c)
   \<and> (\<not> checked c \<and> trim (value_st c) = [] \<longrightarrow>
      handleKeyDown lc (js ''Enter'') rs (a, c) = Some (Inr (a, c)))
   \<and> (checked c \<longrightarrow> handleKeyDown lc (js ''Enter'') rs (a, c) = onNext rs (a, c))"
  by (simp add: handleKeyDown_def handleEnter_def clickCheck_def)

theorem enter_key_witness:
  "\<not> checked (setValue (js ''dom'') card0)
   \<and> trim (value_st (setValue (js ''dom'') card0)) \<noteq> []
   \<and> handleKeyDown lower_latin1 (js ''Enter'') (sconst 0) (app_one, setValue (js ''dom'') card0)
       = Some (Inr (app_one, card_checked))
   \<and> \<not> checked card_blank \<and> trim (value_st card_blank) = []
   \<and> handleKeyDown lower_latin1 (js ''Enter'') (sconst 0) (app_one, card_blank)
       = Some (Inr (app_one, card_blank))
   \<and> checked card_checked
   \<and> handleKeyDown lower_latin1 (js ''Enter'') (sconst 0) (app_one, card_checked)
       = onNext (sconst 0) (app_one, card_checked)"
proof -
  have 1: "\<not> checked (setValue (js ''dom'') card0)"
    "trim (value_st (setValue (js ''dom'') card0)) \<noteq> []"
    by (simp_all add: setValue_def card0_def trim_dom)
  have 2: "\<not> checked card_blank" "trim (value_st card_blank) = []"
    by (simp_all add: card_blank_def setValue_def card0_def trim_blank)
  have 3: "checked card_checked" by (simp add: card_checked_eq)
  have cur: "current app_one = ex_dom" by (simp add: app_one_def)
  note t = enter_key [where lc = lower_latin1 and rs = "sconst 0" and a = app_one]
  from t [where c = "setValue (js ''dom'') card0"] 1
  have a: "handleKeyDown lower_latin1 (js ''Enter'') (sconst 0)
         (app_one, setValue (js ''dom'') card0)
       = Some (Inr (app_one, card_checked))"
    by (simp add: cur card_checked_def)
  from t [where c = card_blank] 2
  have b: "handleKeyDown lower_latin1 (js ''Enter'') (sconst 0) (app_one, card_blank)
       = Some (Inr (app_one, card_blank))"
    by simp
  from t [where c = card_checked] 3
  have c: "handleKeyDown lower_latin1 (js ''Enter'') (sconst 0) (app_one, card_checked)
       = onNext (sconst 0) (app_one, card_checked)"
    by simp
  from 1 2 3 a b c show ?thesis by simp
qed


section \<open>The random selector\<close>

text \<open>
  Claim C5, as stated, fails: on the empty list \<^verbatim>\<open>pickRandom\<close> raises nothing, it returns
  \<^verbatim>\<open>undefined\<close>.
\<close>

theorem pickRandom_empty_counterexample:
  "pickRandom (1 / 2) ([] :: exercise list) = None"
  by (simp add: pickRandom_def)

text \<open>
  Claim C5, amended. For every number drawn, \<^verbatim>\<open>pickRandom\<close> of the empty list returns
  \<^verbatim>\<open>undefined\<close> (the read of index 0 of an empty array), without an error.
\<close>

theorem pickRandom_empty: "pickRandom r [] = None"
  by (simp add: pickRandom_def)

text \<open>
  Claim C10. For a list that is not empty and a number drawn from \<open>[0, 1)\<close>, the index
  \<open>\<lfloor>r * length\<rfloor>\<close> lies in \<open>[0, length)\<close> and \<^verbatim>\<open>pickRandom\<close> returns an element of the list.
\<close>

theorem pickRandom_in_range:
  assumes "items \<noteq> []" and "0 \<le> r" and "r < 1"
  shows "0 \<le> \<lfloor>r * real (length items)\<rfloor> \<and> \<lfloor>r * real (length items)\<rfloor> < int (length items)
       \<and> (\<exists>x \<in> set items. pickRandom r items = Some x)"
proof -
  have l: "0 < real (length items)" using assms(1) by simp
  have lo: "0 \<le> \<lfloor>r * real (length items)\<rfloor>"
    using assms(2) by simp
  have "r * real (length items) < real (length items)"
    using assms(3) l by simp
  then have hi: "\<lfloor>r * real (length items)\<rfloor> < int (length items)"
    by (simp add: floor_less_iff)
  then have "nat \<lfloor>r * real (length items)\<rfloor> < length items"
    using lo by linarith
  then have "items ! nat \<lfloor>r * real (length items)\<rfloor> \<in> set items"
    by simp
  with lo hi show ?thesis
    by (simp add: pickRandom_def)
qed

theorem pickRandom_in_range_witness:
  "[ex_dom, ex_kot] \<noteq> [] \<and> (0::real) \<le> 1 / 2 \<and> (1 / 2 :: real) < 1
   \<and> 0 \<le> \<lfloor>1 / 2 * real (length [ex_dom, ex_kot])\<rfloor>
   \<and> \<lfloor>1 / 2 * real (length [ex_dom, ex_kot])\<rfloor> < int (length [ex_dom, ex_kot])
   \<and> (\<exists>x \<in> set [ex_dom, ex_kot]. pickRandom (1 / 2) [ex_dom, ex_kot] = Some x)"
proof -
  have a: "[ex_dom, ex_kot] \<noteq> []" by simp
  have b: "(0::real) \<le> 1 / 2" and c: "(1 / 2 :: real) < 1" by simp_all
  from pickRandom_in_range [OF a b c] a b c show ?thesis by blast
qed

section \<open>The animation\<close>

lemma length_spawn: "length (spawn n w h rs) = n"
  by (induction n arbitrary: rs) auto

lemma ttl_new_piece:
  assumes "0 \<le> rs !! 5" "rs !! 5 < 1"
  shows "90 \<le> ttl (new_piece w h rs) \<and> ttl (new_piece w h rs) < 150"
proof -
  have "0 \<le> \<lfloor>rs !! 5 * 60\<rfloor>" using assms(1) by simp
  moreover have "rs !! 5 * 60 < 60" using assms(2) by simp
  then have "\<lfloor>rs !! 5 * 60\<rfloor> < 60" by (simp add: floor_less_iff)
  ultimately show ?thesis by (simp add: new_piece_def)
qed

lemma ttl_spawn:
  assumes "\<forall>k. 0 \<le> rs !! k \<and> rs !! k < 1" "p \<in> set (spawn n w h rs)"
  shows "90 \<le> ttl p \<and> ttl p < 150"
  using assms
proof (induction n arbitrary: rs)
  case 0
  then show ?case by simp
next
  case (Suc n)
  from Suc.prems(2) consider "p = new_piece w h rs" | "p \<in> set (spawn n w h (sdrop 7 rs))"
    by auto
  then show ?case
  proof cases
    case 1
    with Suc.prems(1) ttl_new_piece [of rs w h] show ?thesis by simp
  next
    case 2
    have "\<forall>k. 0 \<le> sdrop 7 rs !! k \<and> sdrop 7 rs !! k < 1"
      using Suc.prems(1) by (simp add: sdrop_snth)
    from Suc.IH [OF this 2] show ?thesis .
  qed
qed

lemma frame_tick: "frame (tick a) = frame a + 1"
  by (simp add: tick_def Let_def)

lemma pending_tick: "pending (tick a) = (frame a + 1 < 140)"
  by (simp add: tick_def Let_def)

lemma surface_tick_last: "\<not> frame a + 1 < 140 \<Longrightarrow> surface (tick a) = []"
  by (simp add: tick_def Let_def)

lemma length_pieces_tick: "length (pieces (tick a)) = length (pieces a)"
  by (simp add: tick_def Let_def)

lemma frame_funpow: "frame ((tick ^^ n) a) = frame a + n"
  by (induction n) (auto simp: frame_tick)

lemma length_pieces_funpow: "length (pieces ((tick ^^ n) a)) = length (pieces a)"
  by (induction n) (auto simp: length_pieces_tick)

lemma pending_funpow: "pending ((tick ^^ Suc n) a) = (frame a + Suc n < 140)"
  by (simp add: pending_tick frame_funpow)

lemma animate_funpow:
  assumes "pending a" "frame a + n = 140" "0 < n"
  shows "animate a = (tick ^^ n) a"
  using assms
proof (induction n arbitrary: a)
  case 0
  then show ?case by simp
next
  case (Suc n)
  show ?case
  proof (cases "n = 0")
    case True
    with Suc.prems have "\<not> pending (tick a)" by (simp add: pending_tick)
    then have "animate (tick a) = tick a" by (simp add: animate.simps)
    with Suc.prems(1) True show ?thesis by (simp add: animate.simps [of a])
  next
    case False
    with Suc.prems have p: "pending (tick a)" and f: "frame (tick a) + n = 140"
      by (simp_all add: pending_tick frame_tick)
    from Suc.IH [OF p f] False have "animate (tick a) = (tick ^^ n) (tick a)" by simp
    with Suc.prems(1) show ?thesis
      by (simp add: animate.simps [of a] funpow_swap1)
  qed
qed

lemma pending_before:
  assumes "pending a" "frame a + n < 140"
  shows "pending ((tick ^^ n) a)"
proof (cases n)
  case 0
  with assms(1) show ?thesis by simp
next
  case (Suc m)
  with assms(2) show ?thesis by (simp add: pending_tick frame_funpow)
qed

lemma final_state:
  assumes "frame a + n = 140" "0 < n"
  shows "\<not> pending ((tick ^^ n) a)" "frame ((tick ^^ n) a) = 140"
    "surface ((tick ^^ n) a) = []"
proof -
  from assms(2) obtain m where n: "n = Suc m" by (cases n) auto
  have f: "frame ((tick ^^ m) a) + 1 = 140" using assms(1) n by (simp add: frame_funpow)
  show "\<not> pending ((tick ^^ n) a)" using f by (simp add: n pending_tick)
  show "frame ((tick ^^ n) a) = 140" using assms(1) by (simp add: frame_funpow)
  show "surface ((tick ^^ n) a) = []" using f by (simp add: n surface_tick_last)
qed

text \<open>
  Claim C9. A run of \<^verbatim>\<open>shootConfetti\<close> creates exactly 120 particles, each with a time to
  live in \<open>[90, 150)\<close>; the loop runs \<^verbatim>\<open>tick\<close> exactly 140 times: a frame is pending
  before each of them, and after the last one no frame is pending, the frame counter is
  140 and the canvas is empty, whatever the particles' remaining life.
\<close>

theorem confetti_run:
  assumes "\<forall>k. 0 \<le> rs !! k \<and> rs !! k < 1"
    and "shootConfetti (Some (rw, rh)) rs = Some a"
  shows "length (pieces a) = 120
       \<and> (\<forall>p \<in> set (pieces a). 90 \<le> ttl p \<and> ttl p < 150)
       \<and> animate a = (tick ^^ 140) a
       \<and> (\<forall>n < 140. pending ((tick ^^ n) a))
       \<and> \<not> pending (animate a) \<and> frame (animate a) = 140 \<and> surface (animate a) = []
       \<and> length (pieces (animate a)) = 120"
proof -
  from assms(2) have a: "a = \<lparr>width = \<lfloor>rw\<rfloor>, height = \<lfloor>rh\<rfloor>,
      pieces = spawn 120 \<lfloor>rw\<rfloor> \<lfloor>rh\<rfloor> rs, frame = 0, surface = [], pending = True\<rparr>"
    by (simp add: shootConfetti_def)
  have len: "length (pieces a) = 120" by (simp only: a anim.simps length_spawn)
  have ttl: "\<forall>p \<in> set (pieces a). 90 \<le> ttl p \<and> ttl p < 150"
    using ttl_spawn [OF assms(1)] by (simp only: a anim.simps) blast
  have pa: "pending a" and fa: "frame a = 0" by (simp_all only: a anim.simps)
  have fa': "frame a + 140 = 140" by (simp only: fa add_0)
  have run: "animate a = (tick ^^ 140) a"
    by (rule animate_funpow [OF pa fa']) simp
  have pend: "\<forall>n < 140. pending ((tick ^^ n) a)"
  proof (intro allI impI)
    fix n :: nat assume "n < 140"
    then have "frame a + n < 140" by (simp only: fa add_0)
    with pa show "pending ((tick ^^ n) a)" by (rule pending_before)
  qed
  have pos: "(0::nat) < 140" by simp
  have np: "\<not> pending (animate a)"
    unfolding run by (rule final_state(1) [OF fa' pos])
  have fr: "frame (animate a) = 140"
    unfolding run by (rule final_state(2) [OF fa' pos])
  have su: "surface (animate a) = []"
    unfolding run by (rule final_state(3) [OF fa' pos])
  have le: "length (pieces (animate a)) = 120"
    unfolding run by (simp only: length_pieces_funpow len)
  from len ttl run pend np fr su le show ?thesis by blast
qed

theorem confetti_run_witness:
  "(\<forall>k. (0::real) \<le> sconst (1 / 2 :: real) !! k \<and> sconst (1 / 2 :: real) !! k < 1)
   \<and> (\<exists>a. shootConfetti (Some (700, 300)) (sconst (1 / 2 :: real)) = Some a
        \<and> length (pieces a) = 120
        \<and> (\<forall>p \<in> set (pieces a). 90 \<le> ttl p \<and> ttl p < 150)
        \<and> animate a = (tick ^^ 140) a
        \<and> \<not> pending (animate a) \<and> frame (animate a) = 140 \<and> surface (animate a) = [])"
proof -
  have r: "\<forall>k. (0::real) \<le> sconst (1 / 2 :: real) !! k \<and> sconst (1 / 2 :: real) !! k < 1"
    by simp
  obtain a where a: "shootConfetti (Some (700, 300)) (sconst (1 / 2 :: real)) = Some a"
    by (simp add: shootConfetti_def)
  from confetti_run [OF r a] r a show ?thesis by blast
qed

section \<open>Advancing to the next exercise\<close>

lemma pickRandom_nth:
  assumes "items \<noteq> []" "0 \<le> r" "r < 1"
  shows "nat \<lfloor>r * real (length items)\<rfloor> < length items"
    and "pickRandom r items = Some (items ! nat \<lfloor>r * real (length items)\<rfloor>)"
proof -
  have lo: "0 \<le> \<lfloor>r * real (length items)\<rfloor>" using assms(2) by simp
  have "r * real (length items) < real (length items)" using assms by simp
  then have hi: "\<lfloor>r * real (length items)\<rfloor> < int (length items)"
    by (simp add: floor_less_iff)
  from lo hi show "nat \<lfloor>r * real (length items)\<rfloor> < length items" by linarith
  from lo hi show "pickRandom r items = Some (items ! nat \<lfloor>r * real (length items)\<rfloor>)"
    by (simp add: pickRandom_def)
qed

lemma pickRandom_mem:
  assumes "items \<noteq> []" "0 \<le> r" "r < 1"
  shows "\<exists>x \<in> set items. pickRandom r items = Some x"
  using pickRandom_nth [OF assms] by simp

lemma retry_now: "id_ex nxt \<noteq> id_ex cur \<Longrightarrow> retry exs cur nxt rs = Some (Inr nxt)"
  by (subst retry.simps) simp

lemma retry_again:
  "id_ex nxt = id_ex cur \<Longrightarrow> pickRandom (shd rs) exs = Some n \<Longrightarrow>
     retry exs cur nxt rs = retry exs cur n (stl rs)"
  by (subst retry.simps) simp

lemma retry_returns:
  assumes "exs \<noteq> []" and "\<forall>j. 0 \<le> rs !! j \<and> rs !! j < 1"
    and "pickRandom (rs !! k) exs = Some e" and "id_ex e \<noteq> id_ex cur"
  shows "\<exists>n. retry exs cur nxt rs = Some (Inr n) \<and> id_ex n \<noteq> id_ex cur
           \<and> (n = nxt \<or> n \<in> set exs)"
  using assms(2,3)
proof (induction k arbitrary: nxt rs)
  case 0
  show ?case
  proof (cases "id_ex nxt = id_ex cur")
    case False
    then show ?thesis by (simp add: retry_now)
  next
    case True
    from 0 have p: "pickRandom (shd rs) exs = Some e" by simp
    from pickRandom_mem [OF assms(1), of "shd rs"] 0(1) [rule_format, of 0] p
    have "e \<in> set exs" by auto
    with retry_again [OF True p] retry_now [OF assms(4)] assms(4) show ?thesis by simp
  qed
next
  case (Suc k)
  show ?case
  proof (cases "id_ex nxt = id_ex cur")
    case False
    then show ?thesis by (simp add: retry_now)
  next
    case True
    from Suc.prems(1) [rule_format, of 0] have r0: "0 \<le> shd rs" "shd rs < 1" by simp_all
    from pickRandom_mem [OF assms(1) r0] obtain m
      where m: "m \<in> set exs" "pickRandom (shd rs) exs = Some m" by blast
    have st: "\<forall>j. 0 \<le> stl rs !! j \<and> stl rs !! j < 1"
      using Suc.prems(1) by (metis snth.simps(2))
    have pk: "pickRandom (stl rs !! k) exs = Some e" using Suc.prems(2) by simp
    from Suc.IH [OF st pk, of m] obtain n where
      "retry exs cur m (stl rs) = Some (Inr n)" "id_ex n \<noteq> id_ex cur" "n = m \<or> n \<in> set exs"
      by blast
    with m retry_again [OF True m(2)] show ?thesis by auto
  qed
qed

lemma nextRandom_returns:
  assumes "1 < length (exercises a)" and "\<forall>j. 0 \<le> rs !! j \<and> rs !! j < 1"
    and "pickRandom (rs !! k) (exercises a) = Some e" and "id_ex e \<noteq> id_ex (current a)"
  shows "\<exists>n. nextRandom rs a = Some (Inr (a\<lparr>current := n\<rparr>))
           \<and> id_ex n \<noteq> id_ex (current a) \<and> n \<in> set (exercises a)"
proof -
  have ne: "exercises a \<noteq> []" using assms(1) by auto
  from assms(2) [rule_format, of 0] have r0: "0 \<le> shd rs" "shd rs < 1" by simp_all
  from pickRandom_mem [OF ne r0] obtain m
    where m: "m \<in> set (exercises a)" "pickRandom (shd rs) (exercises a) = Some m" by blast
  have "\<exists>n. retry (exercises a) (current a) m (stl rs) = Some (Inr n)
          \<and> id_ex n \<noteq> id_ex (current a) \<and> (n = m \<or> n \<in> set (exercises a))"
  proof (cases k)
    case 0
    with assms(3) m(2) have "m = e" by simp
    with assms(4) show ?thesis by (simp add: retry_now)
  next
    case (Suc k')
    have st: "\<forall>j. 0 \<le> stl rs !! j \<and> stl rs !! j < 1"
      using assms(2) by (metis snth.simps(2))
    have pk: "pickRandom (stl rs !! k') (exercises a) = Some e" using assms(3) Suc by simp
    from retry_returns [OF ne st pk assms(4)] show ?thesis .
  qed
  then obtain n where n: "retry (exercises a) (current a) m (stl rs) = Some (Inr n)"
    "id_ex n \<noteq> id_ex (current a)" "n = m \<or> n \<in> set (exercises a)" by blast
  from n(3) m(1) have "n \<in> set (exercises a)" by auto
  moreover have "nextRandom rs a = Some (Inr (a\<lparr>current := n\<rparr>))"
    using assms(1) m(2) n(1) by (simp add: nextRandom_def)
  ultimately show ?thesis using n(2) by blast
qed

lemma other_id_exists:
  assumes "1 < length exs" "distinct (map id_ex exs)"
  shows "\<exists>i < length exs. id_ex (exs ! i) \<noteq> id_ex cur"
proof -
  from assms(1) obtain x y zs where "exs = x # y # zs"
    by (cases exs; cases "tl exs") auto
  with assms(2) have "id_ex (exs ! 0) \<noteq> id_ex (exs ! 1)" by auto
  then have "id_ex (exs ! 0) \<noteq> id_ex cur \<or> id_ex (exs ! 1) \<noteq> id_ex cur" by auto
  with assms(1) show ?thesis
    by (metis One_nat_def less_trans zero_less_one)
qed

lemma fair_draw:
  assumes "1 < length exs" "distinct (map id_ex exs)"
    and "\<forall>j. 0 \<le> rs !! j \<and> rs !! j < 1"
    and "\<forall>i < length exs. \<exists>k. \<lfloor>rs !! k * real (length exs)\<rfloor> = int i"
  shows "\<exists>k e. pickRandom (rs !! k) exs = Some e \<and> id_ex e \<noteq> id_ex cur"
proof -
  from other_id_exists [OF assms(1,2)] obtain i
    where i: "i < length exs" "id_ex (exs ! i) \<noteq> id_ex cur" by blast
  from assms(4) i(1) obtain k where k: "\<lfloor>rs !! k * real (length exs)\<rfloor> = int i" by blast
  have ne: "exs \<noteq> []" using assms(1) by auto
  from assms(3) [rule_format, of k] have "0 \<le> rs !! k" "rs !! k < 1" by simp_all
  from pickRandom_nth(2) [OF ne this] k have "pickRandom (rs !! k) exs = Some (exs ! i)"
    by simp
  with i(2) show ?thesis by blast
qed

lemma nextRandom_small: "length (exercises a) \<le> 1 \<Longrightarrow> nextRandom rs a = Some (Inr a)"
  by (simp add: nextRandom_def)

text \<open>
  The loop has no bound: when every draw gives an exercise with the identifier of the
  current one, it never returns.
\<close>

lemma retry_same_forever:
  assumes "retry exs cur nxt rs = Some y"
  shows "\<not> (id_ex nxt = id_ex cur
            \<and> (\<forall>j. \<exists>e. pickRandom (rs !! j) exs = Some e \<and> id_ex e = id_ex cur))"
proof (rule retry.raw_induct [where P = "\<lambda>exs cur nxt rs y. \<not> (id_ex nxt = id_ex cur
            \<and> (\<forall>j. \<exists>e. pickRandom (rs !! j) exs = Some e \<and> id_ex e = id_ex cur))", OF _ assms])
  fix f :: "exercise list \<Rightarrow> exercise \<Rightarrow> exercise \<Rightarrow> real stream \<Rightarrow> exercise run"
    and exs cur nxt rs y
  assume IH: "\<And>exs cur nxt rs y. f exs cur nxt rs = Some y \<Longrightarrow>
      \<not> (id_ex nxt = id_ex cur
            \<and> (\<forall>j. \<exists>e. pickRandom (rs !! j) exs = Some e \<and> id_ex e = id_ex cur))"
    and body: "(if id_ex nxt = id_ex cur
      then (case pickRandom (shd rs) exs of
              None \<Rightarrow> Some (Inl TypeError)
            | Some n \<Rightarrow> f exs cur n (stl rs))
      else Some (Inr nxt)) = Some y"
  show "\<not> (id_ex nxt = id_ex cur
            \<and> (\<forall>j. \<exists>e. pickRandom (rs !! j) exs = Some e \<and> id_ex e = id_ex cur))"
  proof
    assume h: "id_ex nxt = id_ex cur \<and>
      (\<forall>j. \<exists>e. pickRandom (rs !! j) exs = Some e \<and> id_ex e = id_ex cur)"
    then obtain e where e: "pickRandom (shd rs) exs = Some e" "id_ex e = id_ex cur"
      by (metis snth.simps(1))
    from h body e have r: "f exs cur e (stl rs) = Some y" by simp
    from h have "\<forall>j. \<exists>e. pickRandom (stl rs !! j) exs = Some e \<and> id_ex e = id_ex cur"
      by (metis snth.simps(2))
    with IH [OF r] e(2) show False by simp
  qed
qed

lemma nextRandom_unlucky: "nextRandom (sconst 0) app_two = None"
proof -
  have p: "\<And>j. pickRandom (sconst (0::real) !! j) [ex_dom, ex_kot] = Some ex_dom"
    by (simp add: pickRandom_def)
  have "retry [ex_dom, ex_kot] ex_dom ex_dom (stl (sconst 0)) = None"
  proof (cases "retry [ex_dom, ex_kot] ex_dom ex_dom (stl (sconst 0))")
    case None
    then show ?thesis .
  next
    case (Some y)
    from retry_same_forever [OF Some] p show ?thesis by simp
  qed
  moreover have "pickRandom (shd (sconst (0::real))) [ex_dom, ex_kot] = Some ex_dom"
    by (simp add: pickRandom_def)
  ultimately show ?thesis
    by (simp add: nextRandom_def app_two_def)
qed

text \<open>Whatever the loop returns has another identifier than the current exercise.\<close>

lemma retry_result:
  assumes "retry exs cur nxt rs = Some y"
  shows "\<forall>n. y = Inr n \<longrightarrow> id_ex n \<noteq> id_ex cur"
proof (rule retry.raw_induct [where P = "\<lambda>exs cur nxt rs y.
          \<forall>n. y = Inr n \<longrightarrow> id_ex n \<noteq> id_ex cur", OF _ assms])
  fix f :: "exercise list \<Rightarrow> exercise \<Rightarrow> exercise \<Rightarrow> real stream \<Rightarrow> exercise run"
    and exs cur nxt rs y
  assume IH: "\<And>exs cur nxt rs y. f exs cur nxt rs = Some y \<Longrightarrow>
      \<forall>n. y = Inr n \<longrightarrow> id_ex n \<noteq> id_ex cur"
    and body: "(if id_ex nxt = id_ex cur
      then (case pickRandom (shd rs) exs of
              None \<Rightarrow> Some (Inl TypeError)
            | Some n \<Rightarrow> f exs cur n (stl rs))
      else Some (Inr nxt)) = Some y"
  show "\<forall>n. y = Inr n \<longrightarrow> id_ex n \<noteq> id_ex cur"
  proof (cases "id_ex nxt = id_ex cur")
    case False
    with body show ?thesis by auto
  next
    case True
    show ?thesis
    proof (cases "pickRandom (shd rs) exs")
      case None
      with True body show ?thesis by auto
    next
      case (Some m)
      with True body have "f exs cur m (stl rs) = Some y" by simp
      from IH [OF this] show ?thesis .
    qed
  qed
qed

lemma nextRandom_result:
  assumes "1 < length (exercises a)" "nextRandom rs a = Some (Inr a')"
  shows "id_ex (current a') \<noteq> id_ex (current a) \<and> exercises a' = exercises a"
proof -
  from assms obtain m where m: "pickRandom (shd rs) (exercises a) = Some m"
    by (cases "pickRandom (shd rs) (exercises a)") (auto simp: nextRandom_def)
  from assms m obtain n where n: "retry (exercises a) (current a) m (stl rs) = Some (Inr n)"
    and a': "a' = a\<lparr>current := n\<rparr>"
    by (auto simp: nextRandom_def split: option.splits sum.splits)
  from retry_result [OF n] a' show ?thesis by simp
qed

lemma rerender_new_id:
  "id_ex new \<noteq> id_ex old \<Longrightarrow> rerender old new c = resetEffect c"
  by (simp add: rerender_def deps_def)

lemma rerender_same: "rerender e e c = c"
  by (simp add: rerender_def)

lemma onNext_Inr:
  "onNext rs (a, c) = Some (Inr (a', c')) \<longleftrightarrow>
     nextRandom rs a = Some (Inr a') \<and> c' = rerender (current a) (current a') c"
  by (auto simp: onNext_def split: option.splits sum.splits)

lemma rs_fair_range: "\<forall>j. 0 \<le> rs_fair !! j \<and> rs_fair !! j < 1"
proof
  fix j show "0 \<le> rs_fair !! j \<and> rs_fair !! j < 1"
    by (cases j) (simp_all add: rs_fair_def)
qed

lemma rs_fair_two: "\<forall>i < length (exercises app_two).
    \<exists>k. \<lfloor>rs_fair !! k * real (length (exercises app_two))\<rfloor> = int i"
proof (intro allI impI)
  fix i assume "i < length (exercises app_two)"
  then have "i < 2" by (simp add: app_two_def)
  then consider "i = 0" | "i = 1" by linarith
  then show "\<exists>k. \<lfloor>rs_fair !! k * real (length (exercises app_two))\<rfloor> = int i"
  proof cases
    case 1
    have "\<lfloor>rs_fair !! 0 * real (length (exercises app_two))\<rfloor> = int 0"
      by (simp add: rs_fair_def)
    with 1 show ?thesis by blast
  next
    case 2
    have "\<lfloor>rs_fair !! 1 * real (length (exercises app_two))\<rfloor> = int 1"
      by (simp add: rs_fair_def app_two_def)
    with 2 show ?thesis by blast
  qed
qed

lemma app_two_ok: "1 < length (exercises app_two)" "distinct (map id_ex (exercises app_two))"
  by (simp_all add: app_two_def ex_dom_def ex_kot_def)

text \<open>
  Claim C7. With more than one exercise in the pool, every state that \<^verbatim>\<open>onNext\<close> returns
  has a current exercise whose identifier differs from the one before; and \<^verbatim>\<open>onNext\<close>
  does return such a state, with an exercise of the pool, when the identifiers of the pool
  are unique and the random selector is given draws from \<open>[0, 1)\<close> that reach every index.
\<close>

theorem advance_differs:
  assumes "1 < length (exercises a)"
  shows "(\<forall>a' c'. onNext rs (a, c) = Some (Inr (a', c')) \<longrightarrow>
            id_ex (current a') \<noteq> id_ex (current a))
       \<and> (distinct (map id_ex (exercises a))
            \<and> (\<forall>j. 0 \<le> rs !! j \<and> rs !! j < 1)
            \<and> (\<forall>i < length (exercises a).
                  \<exists>k. \<lfloor>rs !! k * real (length (exercises a))\<rfloor> = int i) \<longrightarrow>
          (\<exists>a' c'. onNext rs (a, c) = Some (Inr (a', c'))
             \<and> id_ex (current a') \<noteq> id_ex (current a)
             \<and> current a' \<in> set (exercises a) \<and> exercises a' = exercises a))"
proof (intro conjI allI impI)
  fix a' c' assume "onNext rs (a, c) = Some (Inr (a', c'))"
  then have "nextRandom rs a = Some (Inr a')" by (simp add: onNext_Inr)
  from nextRandom_result [OF assms this] show "id_ex (current a') \<noteq> id_ex (current a)"
    by simp
next
  assume h: "distinct (map id_ex (exercises a))
            \<and> (\<forall>j. 0 \<le> rs !! j \<and> rs !! j < 1)
            \<and> (\<forall>i < length (exercises a).
                  \<exists>k. \<lfloor>rs !! k * real (length (exercises a))\<rfloor> = int i)"
  then obtain k e where e: "pickRandom (rs !! k) (exercises a) = Some e"
    "id_ex e \<noteq> id_ex (current a)"
    using fair_draw [OF assms, of rs "current a"] by blast
  from h nextRandom_returns [OF assms _ e] obtain n
    where n: "nextRandom rs a = Some (Inr (a\<lparr>current := n\<rparr>))"
      "id_ex n \<noteq> id_ex (current a)" "n \<in> set (exercises a)" by blast
  have "onNext rs (a, c)
      = Some (Inr (a\<lparr>current := n\<rparr>, rerender (current a) (current (a\<lparr>current := n\<rparr>)) c))"
    using n(1) by (simp add: onNext_Inr)
  with n(2,3) show "\<exists>a' c'. onNext rs (a, c) = Some (Inr (a', c'))
             \<and> id_ex (current a') \<noteq> id_ex (current a)
             \<and> current a' \<in> set (exercises a) \<and> exercises a' = exercises a"
    by (intro exI [of _ "a\<lparr>current := n\<rparr>"] exI) simp
qed

theorem advance_differs_witness:
  "1 < length (exercises app_two) \<and> distinct (map id_ex (exercises app_two))
   \<and> (\<forall>j. 0 \<le> rs_fair !! j \<and> rs_fair !! j < 1)
   \<and> (\<exists>a' c'. onNext rs_fair (app_two, card_checked) = Some (Inr (a', c'))
         \<and> id_ex (current a') \<noteq> id_ex (current app_two)
         \<and> current a' \<in> set (exercises app_two))"
  using advance_differs [OF app_two_ok(1), of rs_fair card_checked]
    app_two_ok rs_fair_range rs_fair_two
  by blast

text \<open>
  Claim C8, as stated, fails on a pool of one exercise: \<^verbatim>\<open>nextRandom\<close> returns at once, the
  exercise does not change, the effect does not run, and the checked card stays as it is.
\<close>

theorem advance_counterexample:
  "onNext (sconst 0) (app_one, card_checked) = Some (Inr (app_one, card_checked))
   \<and> checked card_checked \<and> value_st card_checked = js ''dom''
   \<and> isCorrect card_checked = Some True"
  by (simp add: onNext_def nextRandom_def app_one_def rerender_same card_checked_eq)

text \<open>
  Claim C8, amended. With at most one exercise in the pool \<^verbatim>\<open>onNext\<close> leaves the card as it
  is. With more than one, from every prior state of the card, every state that \<^verbatim>\<open>onNext\<close>
  returns has \<^verbatim>\<open>checked\<close> false, an empty value and \<^verbatim>\<open>isCorrect\<close> unknown; and it does
  return one when the identifiers are unique and the draws reach every index.
\<close>

theorem advance_resets:
  "(length (exercises a) \<le> 1 \<longrightarrow> onNext rs (a, c) = Some (Inr (a, c)))
   \<and> (1 < length (exercises a) \<longrightarrow>
        (\<forall>a' c'. onNext rs (a, c) = Some (Inr (a', c')) \<longrightarrow>
           \<not> checked c' \<and> value_st c' = [] \<and> isCorrect c' = None))
   \<and> (1 < length (exercises a) \<and> distinct (map id_ex (exercises a))
        \<and> (\<forall>j. 0 \<le> rs !! j \<and> rs !! j < 1)
        \<and> (\<forall>i < length (exercises a).
              \<exists>k. \<lfloor>rs !! k * real (length (exercises a))\<rfloor> = int i) \<longrightarrow>
        (\<exists>a' c'. onNext rs (a, c) = Some (Inr (a', c'))
           \<and> \<not> checked c' \<and> value_st c' = [] \<and> isCorrect c' = None))"
proof (intro conjI allI impI)
  assume "length (exercises a) \<le> 1"
  then show "onNext rs (a, c) = Some (Inr (a, c))"
    by (simp add: onNext_def nextRandom_small rerender_same)
next
  fix a' c'
  assume l: "1 < length (exercises a)" and r: "onNext rs (a, c) = Some (Inr (a', c'))"
  from r have n: "nextRandom rs a = Some (Inr a')"
    and c': "c' = rerender (current a) (current a') c" by (simp_all add: onNext_Inr)
  from nextRandom_result [OF l n] have "id_ex (current a') \<noteq> id_ex (current a)" by simp
  with c' have "c' = resetEffect c" by (simp add: rerender_new_id)
  then show "\<not> checked c'" "value_st c' = []" "isCorrect c' = None"
    by (simp_all add: resetEffect_def)
next
  assume h: "1 < length (exercises a) \<and> distinct (map id_ex (exercises a))
        \<and> (\<forall>j. 0 \<le> rs !! j \<and> rs !! j < 1)
        \<and> (\<forall>i < length (exercises a).
              \<exists>k. \<lfloor>rs !! k * real (length (exercises a))\<rfloor> = int i)"
  then have l: "1 < length (exercises a)" by simp
  from h obtain k e where e: "pickRandom (rs !! k) (exercises a) = Some e"
    "id_ex e \<noteq> id_ex (current a)"
    using fair_draw [OF l, of rs "current a"] by blast
  from h nextRandom_returns [OF l _ e] obtain n
    where n: "nextRandom rs a = Some (Inr (a\<lparr>current := n\<rparr>))"
      "id_ex n \<noteq> id_ex (current a)" by blast
  have "onNext rs (a, c) = Some (Inr (a\<lparr>current := n\<rparr>, resetEffect c))"
    using n by (simp add: onNext_Inr rerender_new_id)
  then show "\<exists>a' c'. onNext rs (a, c) = Some (Inr (a', c'))
           \<and> \<not> checked c' \<and> value_st c' = [] \<and> isCorrect c' = None"
    by (simp add: resetEffect_def)
qed

theorem advance_resets_witness:
  "length (exercises app_one) \<le> 1
   \<and> onNext rs_fair (app_one, card_checked) = Some (Inr (app_one, card_checked))
   \<and> 1 < length (exercises app_two) \<and> distinct (map id_ex (exercises app_two))
   \<and> (\<forall>j. 0 \<le> rs_fair !! j \<and> rs_fair !! j < 1)
   \<and> (\<exists>a' c'. onNext rs_fair (app_two, card_checked) = Some (Inr (a', c'))
         \<and> \<not> checked c' \<and> value_st c' = [] \<and> isCorrect c' = None)"
proof -
  have one: "length (exercises app_one) \<le> 1" by (simp add: app_one_def)
  from advance_resets [of app_one rs_fair card_checked] one
  have 1: "onNext rs_fair (app_one, card_checked) = Some (Inr (app_one, card_checked))"
    by blast
  from advance_resets [of app_two rs_fair card_checked] app_two_ok rs_fair_range rs_fair_two
  have 2: "\<exists>a' c'. onNext rs_fair (app_two, card_checked) = Some (Inr (a', c'))
         \<and> \<not> checked c' \<and> value_st c' = [] \<and> isCorrect c' = None"
    by blast
  from one 1 2 app_two_ok rs_fair_range rs_fair_two show ?thesis by blast
qed

section \<open>The matcher\<close>

lemma space_is_space: "is_space 32"
  by (simp add: is_space_def)

lemma is_space_lower_unit: "is_space (lower_unit c) = is_space c"
proof -
  have "unat (c + 32) = unat c + 32" if "unat c \<le> 222"
    using that by (simp add: unat_word_ariths)
  then show ?thesis
    by (auto simp: is_space_def lower_unit_def Let_def)
qed

lemma words_of_dropWhile: "words_of (dropWhile is_space s) = words_of s"
  by (induction s) auto

lemma words_of_Nil_iff: "words_of s = [] \<longleftrightarrow> (\<forall>c \<in> set s. is_space c)"
  by (induction s rule: words_of.induct) auto

lemma words_of_spaces: "\<forall>c \<in> set s. is_space c \<Longrightarrow> words_of s = []"
  by (simp add: words_of_Nil_iff)

lemma words_of_append_spaces:
  "\<forall>c \<in> set sps. is_space c \<Longrightarrow> words_of (s @ sps) = words_of s"
proof (induction s rule: words_of.induct)
  case 1
  then show ?case by (simp add: words_of_spaces)
next
  case (2 c cs)
  show ?case
  proof (cases "is_space c")
    case True
    with 2 show ?thesis by simp
  next
    case False
    show ?thesis
    proof (cases "\<forall>x \<in> set cs. \<not> is_space x")
      case True
      have t: "takeWhile (\<lambda>x. \<not> is_space x) sps = []"
        and d: "dropWhile (\<lambda>x. \<not> is_space x) sps = sps"
        using 2(3) by (cases sps; simp)+
      have ta: "takeWhile (\<lambda>x. \<not> is_space x) (cs @ sps) = cs"
        and da: "dropWhile (\<lambda>x. \<not> is_space x) (cs @ sps) = sps"
        using True t d by (simp_all add: takeWhile_append dropWhile_append)
      have tc: "takeWhile (\<lambda>x. \<not> is_space x) cs = cs"
        and dc: "dropWhile (\<lambda>x. \<not> is_space x) cs = []"
        using True by simp_all
      have "words_of ((c # cs) @ sps) = [c # cs]"
        using False 2(3) by (simp add: ta da words_of_spaces)
      moreover have "words_of (c # cs) = [c # cs]"
        using False by (simp add: tc dc)
      ultimately show ?thesis by simp
    next
      case nt: False
      then obtain y where "y \<in> set cs" "\<not> \<not> is_space y" by blast
      then have "takeWhile (\<lambda>x. \<not> is_space x) (cs @ sps) = takeWhile (\<lambda>x. \<not> is_space x) cs"
        "dropWhile (\<lambda>x. \<not> is_space x) (cs @ sps) = dropWhile (\<lambda>x. \<not> is_space x) cs @ sps"
        by (rule takeWhile_append1, rule dropWhile_append1)
      with False 2(2) [OF False 2(3)] show ?thesis by simp
    qed
  qed
qed

lemma words_of_trim: "words_of (trim s) = words_of s"
proof -
  let ?d = "dropWhile is_space s"
  have "rev ?d = takeWhile is_space (rev ?d) @ dropWhile is_space (rev ?d)" by simp
  then have "?d = rev (dropWhile is_space (rev ?d)) @ rev (takeWhile is_space (rev ?d))"
    by (metis rev_append rev_rev_ident)
  then have d: "?d = trim s @ rev (takeWhile is_space (rev ?d))"
    by (simp add: trim_def)
  have "\<forall>c \<in> set (rev (takeWhile is_space (rev ?d))). is_space c"
    by (auto dest: set_takeWhileD)
  from words_of_append_spaces [OF this, of "trim s"] d
  have "words_of ?d = words_of (trim s)" by simp
  then show ?thesis by (simp add: words_of_dropWhile)
qed

lemma trim_ends:
  "trim s = [] \<or> (\<not> is_space (hd (trim s)) \<and> \<not> is_space (last (trim s)))"
proof (cases "trim s = []")
  case True
  then show ?thesis by simp
next
  case False
  let ?d = "dropWhile is_space s"
  let ?e = "dropWhile is_space (rev ?d)"
  from False have e: "?e \<noteq> []" by (simp add: trim_def)
  then have "\<not> is_space (hd ?e)" by (rule hd_dropWhile)
  then have l: "\<not> is_space (last (trim s))" by (simp add: trim_def last_rev)
  from e have dne: "?d \<noteq> []" by (metis dropWhile.simps(1) rev_is_Nil_conv)
  then have hd: "\<not> is_space (hd ?d)" by (rule hd_dropWhile)
  have "hd ?d = last (rev ?d)" by (simp add: last_rev)
  moreover have "last (rev ?d) \<in> set (rev ?d)"
    by (metis dne last_in_set rev_is_Nil_conv)
  ultimately have "last ?e = last (rev ?d)" using hd
    by (intro dropWhile_last) auto
  then have "last ?e = hd ?d" by (simp add: last_rev)
  with hd have "\<not> is_space (hd (trim s))" by (simp add: trim_def hd_rev)
  with l show ?thesis by simp
qed

lemma unwords_Cons_char: "unwords ((c # w) # ws) = c # unwords (w # ws)"
  by (cases ws) auto

lemma collapse_ws_words:
  "s = [] \<or> \<not> is_space (last s) \<Longrightarrow>
     collapse_ws s = (if s \<noteq> [] \<and> is_space (hd s) then [32] else []) @ unwords (words_of s)"
proof (induction s rule: collapse_ws.induct)
  case 1
  then show ?case by simp
next
  case (2 c cs)
  from 2(3) have lst: "\<not> is_space (last (c # cs))" by simp
  show ?case
  proof (cases "is_space c")
    case True
    with lst have csne: "cs \<noteq> []" by auto
    with lst have lcs: "\<not> is_space (last cs)" by simp
    let ?d = "dropWhile is_space cs"
    from csne lcs have in_cs: "last cs \<in> set cs" by simp
    with lcs have dne: "?d \<noteq> []" by auto
    have "last ?d = last cs" using in_cs lcs by (rule dropWhile_last)
    with lcs have ld: "\<not> is_space (last ?d)" by simp
    from dne have hdd: "\<not> is_space (hd ?d)" by (rule hd_dropWhile)
    from 2(1) [OF True] ld hdd have "collapse_ws ?d = unwords (words_of ?d)" by simp
    with True show ?thesis by (simp add: words_of_dropWhile)
  next
    case False
    show ?thesis
    proof (cases cs)
      case Nil
      with False show ?thesis by simp
    next
      case (Cons x xs)
      with lst have lcs: "\<not> is_space (last cs)" by simp
      from 2(2) [OF False] lcs
      have IH: "collapse_ws cs
        = (if cs \<noteq> [] \<and> is_space (hd cs) then [32] else []) @ unwords (words_of cs)"
        by simp
      show ?thesis
      proof (cases "is_space x")
        case True
        have "last cs \<in> set cs" using Cons by simp
        with lcs have "words_of cs \<noteq> []" by (auto simp: words_of_Nil_iff)
        then obtain v vs where v: "words_of cs = v # vs" by (cases "words_of cs") auto
        from True Cons have "words_of (c # cs) = [c] # words_of cs" using False by simp
        with IH True Cons False v show ?thesis by simp
      next
        case nx: False
        with IH Cons False show ?thesis by (simp add: unwords_Cons_char)
      qed
    qed
  qed
qed

lemma collapse_ws_trim: "collapse_ws (trim s) = unwords (words_of s)"
proof -
  from trim_ends [of s] have "trim s = [] \<or> \<not> is_space (last (trim s))" by auto
  from collapse_ws_words [OF this] trim_ends [of s]
  show ?thesis by (auto simp: words_of_trim)
qed


text \<open>
  When the lower-casing works unit by unit and keeps white space apart from the rest, as
  \<^verbatim>\<open>toLowerCase\<close> does on strings of units below 256, two strings match exactly when they
  have the same words up to case. This is not a statement about \<^verbatim>\<open>toLowerCase\<close> on every
  string: there it depends on the context and can change the length.
\<close>

lemma trim_map:
  assumes "\<And>x. is_space (f x) = is_space x"
  shows "trim (map f s) = map f (trim s)"
proof -
  have c: "is_space \<circ> f = is_space" using assms by auto
  show ?thesis
    by (simp add: trim_def dropWhile_map rev_map c)
qed

lemma words_of_map:
  assumes "\<And>x. is_space (f x) = is_space x"
  shows "words_of (map f s) = map (map f) (words_of s)"
proof (induction s rule: words_of.induct)
  case 1
  then show ?case by simp
next
  case (2 c cs)
  have c: "(\<lambda>x. \<not> is_space x) \<circ> f = (\<lambda>x. \<not> is_space x)"
    using assms by auto
  show ?case
  proof (cases "is_space c")
    case True
    with 2 show ?thesis by (simp add: assms)
  next
    case False
    with 2(2) [OF False] show ?thesis
      by (simp add: assms takeWhile_map dropWhile_map c)
  qed
qed

lemma normalize_words:
  assumes "\<And>x. is_space (f x) = is_space x"
  shows "normalize (map f) s = unwords (map (map f) (words_of s))"
  by (simp add: normalize_def trim_map [OF assms, symmetric] collapse_ws_trim
      words_of_map [OF assms])

lemma good_words_of: "list_all good_word (words_of s)"
proof (induction s rule: words_of.induct)
  case 1
  show ?case by simp
next
  case (2 c cs)
  show ?case
  proof (cases "is_space c")
    case True
    with 2(1) show ?thesis by simp
  next
    case False
    have "\<forall>x \<in> set (takeWhile (\<lambda>x. \<not> is_space x) cs). \<not> is_space x"
      using set_takeWhileD by fastforce
    with False have "good_word (c # takeWhile (\<lambda>x. \<not> is_space x) cs)"
      by (simp add: good_word_def list_all_iff)
    with False 2(2) show ?thesis by simp
  qed
qed

lemma good_map:
  assumes "\<And>x. is_space (f x) = is_space x"
  shows "good_word w \<Longrightarrow> good_word (map f w)"
  by (auto simp: good_word_def list_all_iff assms)

lemma words_of_word_space:
  assumes "good_word w" "is_space x"
  shows "words_of (w @ x # t) = w # words_of t"
proof -
  from assms(1) obtain c cs where w: "w = c # cs" by (cases w) (auto simp: good_word_def)
  with assms(1) have c: "\<not> is_space c" and cs: "\<forall>y \<in> set cs. \<not> is_space y"
    by (auto simp: good_word_def list_all_iff)
  from cs assms(2) have 1: "takeWhile (\<lambda>x. \<not> is_space x) (cs @ x # t) = cs"
    and 2: "dropWhile (\<lambda>x. \<not> is_space x) (cs @ x # t) = x # t"
    by (simp_all add: takeWhile_append dropWhile_append)
  from c assms(2) show ?thesis by (simp add: w 1 2)
qed

lemma words_of_word:
  assumes "good_word w"
  shows "words_of w = [w]"
proof -
  from assms obtain c cs where w: "w = c # cs" by (cases w) (auto simp: good_word_def)
  with assms have c: "\<not> is_space c" and cs: "\<forall>y \<in> set cs. \<not> is_space y"
    by (auto simp: good_word_def list_all_iff)
  from cs have 1: "takeWhile (\<lambda>x. \<not> is_space x) cs = cs"
    and 2: "dropWhile (\<lambda>x. \<not> is_space x) cs = []" by simp_all
  from c show ?thesis by (simp add: w 1 2)
qed

lemma words_of_unwords: "list_all good_word ws \<Longrightarrow> words_of (unwords ws) = ws"
proof (induction ws rule: unwords.induct)
  case 1
  then show ?case by simp
next
  case (2 w)
  then show ?case by (simp add: words_of_word)
next
  case (3 w v ws)
  then show ?case by (simp add: words_of_word_space space_is_space)
qed

lemma words_of_normalize:
  assumes "\<And>x. is_space (f x) = is_space x"
  shows "words_of (normalize (map f) s) = map (map f) (words_of s)"
proof -
  have "list_all good_word (map (map f) (words_of s))"
    using good_words_of [of s] by (auto simp: list_all_iff good_map [OF assms])
  then show ?thesis by (simp add: normalize_words [OF assms] words_of_unwords)
qed

lemma checkAnswer_iff_words:
  assumes "\<And>x. is_space (f x) = is_space x"
  shows "checkAnswer (map f) u c \<longleftrightarrow> map (map f) (words_of u) = map (map f) (words_of c)"
proof
  assume "checkAnswer (map f) u c"
  then have "words_of (normalize (map f) u) = words_of (normalize (map f) c)"
    by (simp add: checkAnswer_def)
  then show "map (map f) (words_of u) = map (map f) (words_of c)"
    by (simp add: words_of_normalize [OF assms])
next
  assume "map (map f) (words_of u) = map (map f) (words_of c)"
  then show "checkAnswer (map f) u c"
    by (simp add: checkAnswer_def normalize_words [OF assms])
qed

lemma lower_latin1_map: "lower_latin1 = map lower_unit"
  by (rule ext) (simp add: lower_latin1_def)

lemma checkAnswer_latin1_words:
  "checkAnswer lower_latin1 u c
     \<longleftrightarrow> map lower_latin1 (words_of u) = map lower_latin1 (words_of c)"
  unfolding lower_latin1_map by (rule checkAnswer_iff_words) (rule is_space_lower_unit)









section \<open>The index under rounding\<close>

text \<open>
  Every binary64 number below 1 is at most \<open>1 - 2\<^sup>-\<^sup>5\<^sup>3\<close>. For such a draw and a length
  from 1 to \<open>2\<^sup>5\<^sup>3\<close>, the rounded product stays below the length, so the bound of
  \<open>pickRandom_nth\<close> does not depend on the product being exact.
\<close>

lemma rne_nonneg: "0 \<le> q \<Longrightarrow> 0 \<le> rne q"
  by (auto simp: rne_def Let_def)

lemma rne_le:
  assumes "q \<le> of_int M"
  shows "rne q \<le> M"
proof -
  have f: "\<lfloor>q\<rfloor> \<le> M" using assms by (simp add: floor_le_iff)
  show ?thesis
  proof (cases "\<lfloor>q\<rfloor> = M")
    case True
    then have "of_int M \<le> q" by (metis of_int_floor_le)
    with assms have "q = of_int M" by simp
    then show ?thesis by (simp add: rne_def)
  next
    case False
    with f have "\<lfloor>q\<rfloor> + 1 \<le> M" by simp
    then show ?thesis using f by (auto simp: rne_def Let_def)
  qed
qed

lemma rne_le_pred:
  assumes "q < of_int M - 1 / 2"
  shows "rne q \<le> M - 1"
proof -
  have "q < of_int M" using assms by linarith
  then have f: "\<lfloor>q\<rfloor> \<le> M - 1" by (simp add: floor_less_iff)
  show ?thesis
  proof (cases "\<lfloor>q\<rfloor> = M - 1")
    case True
    then have "q - of_int \<lfloor>q\<rfloor> < 1 / 2" using assms by simp
    with True show ?thesis by (simp add: rne_def Let_def)
  next
    case False
    with f have "\<lfloor>q\<rfloor> + 1 \<le> M - 1" by simp
    then show ?thesis using f by (auto simp: rne_def Let_def)
  qed
qed

lemma log2_bounds:
  assumes "0 < x"
  shows "(2::real) powr of_int \<lfloor>log 2 x\<rfloor> \<le> x" "x < (2::real) powr of_int (\<lfloor>log 2 x\<rfloor> + 1)"
  using floor_log_eq_powr_iff [of x 2 "\<lfloor>log 2 x\<rfloor>"] assms by simp_all

lemma binary64_nonneg: "0 \<le> x \<Longrightarrow> 0 \<le> binary64 x"
  by (auto simp: binary64_def Let_def intro!: mult_nonneg_nonneg rne_nonneg divide_nonneg_pos)

lemma binary64_product_less:
  fixes r :: real and n :: nat
  assumes r0: "0 \<le> r" and r1: "r \<le> 1 - 1 / 2 ^ 53" and n1: "1 \<le> n" and n53: "n \<le> 2 ^ 53"
  shows "binary64 (r * real n) < real n"
proof (cases "r * real n = 0")
  case True
  have "binary64 0 = 0" by (simp add: binary64_def)
  moreover have "0 < real n" using n1 by simp
  ultimately show ?thesis by (simp only: True)
next
  case False
  define y where "y = r * real n"
  define p53 :: real where "p53 = 2 ^ 53"
  have p53pos: "0 < p53" by (simp add: p53_def)
  have p53powr: "p53 = (2::real) powr 53" by (simp add: p53_def)
  have npos: "0 < real n" using n1 by simp
  have "0 \<le> y" using r0 by (simp add: y_def)
  moreover have "y \<noteq> 0" using False by (simp only: y_def) simp
  ultimately have ypos: "0 < y" by linarith
  have yub: "y \<le> real n - real n / p53"
  proof -
    have "r \<le> 1 - 1 / p53" using r1 by (simp only: p53_def)
    then have "r * real n \<le> (1 - 1 / p53) * real n"
      using npos by (intro mult_right_mono) simp_all
    then show ?thesis by (simp add: y_def algebra_simps)
  qed
  have "0 < real n / p53" using npos p53pos by simp
  with yub have yn: "y < real n" by linarith
  define k where "k = \<lfloor>log 2 (real n)\<rfloor>"
  define ey where "ey = \<lfloor>log 2 y\<rfloor>"
  define e where "e = max ey (- 1022)"
  define u :: real where "u = 2 powr of_int (e - 52)"
  have kn: "(2::real) powr of_int k \<le> real n" "real n < (2::real) powr of_int (k + 1)"
    using log2_bounds [OF npos] by (simp_all only: k_def)
  have "0 \<le> log 2 (real n)" using n1 by simp
  then have k0: "0 \<le> k" by (simp add: k_def)
  have ye: "(2::real) powr of_int ey \<le> y" "y < (2::real) powr of_int (ey + 1)"
    using log2_bounds [OF ypos] by (simp_all only: ey_def)
  have upos: "0 < u" by (simp add: u_def)
  have u53: "u * p53 = (2::real) powr of_int (e + 1)"
  proof -
    have "u * p53 = (2::real) powr (of_int (e - 52) + 53)"
      unfolding u_def p53powr by (simp only: powr_add)
    moreover have "of_int (e - 52) + (53::real) = of_int (e + 1)" by simp
    ultimately show ?thesis by (simp only:)
  qed
  have "(2::real) powr of_int ey < (2::real) powr of_int (k + 1)"
    using ye(1) yn kn(2) by linarith
  then have "real_of_int ey < real_of_int (k + 1)" by (simp only: powr_less_cancel_iff one_less_numeral_iff semiring_norm)
  then have eyk: "ey \<le> k" by simp
  have ek: "e \<le> k" using eyk k0 by (simp add: e_def)
  have eye: "ey \<le> e" by (simp add: e_def)
  have "(2::real) powr of_int (ey + 1) \<le> (2::real) powr of_int (e + 1)"
    using eye by (intro powr_mono) simp_all
  with ye(2) have "y < (2::real) powr of_int (e + 1)" by linarith
  then have ylt: "y < u * p53" by (simp only: u53)
  have q53: "y / u \<le> p53"
  proof -
    have "y / u < (u * p53) / u" using ylt upos by (rule divide_strict_right_mono)
    also have "(u * p53) / u = p53" using upos by simp
    finally show ?thesis by simp
  qed
  have p53int: "p53 = of_int (2 ^ 53)" by (simp add: p53_def)
  have b64: "binary64 (r * real n) = u * of_int (rne (y / u))"
  proof -
    have "binary64 y = (let e = max \<lfloor>log 2 y\<rfloor> (- 1022); u = 2 powr of_int (e - 52)
         in u * of_int (rne (y / u)))"
      using ypos by (simp only: binary64_def) simp
    then show ?thesis
      by (simp only: Let_def y_def [symmetric] ey_def [symmetric] e_def [symmetric]
          u_def [symmetric])
  qed
  have rnd_le: "u * of_int (rne (y / u)) \<le> u * of_int M" if "y / u \<le> of_int M" for M
  proof -
    from that have "rne (y / u) \<le> M" by (rule rne_le)
    then have "(of_int (rne (y / u)) :: real) \<le> of_int M" by (simp only: of_int_le_iff)
    then show ?thesis using upos by (simp only: mult_le_cancel_left_pos)
  qed
  show ?thesis
  proof (cases "ey = k")
    case True
    then have e: "e = k" using k0 by (simp add: e_def)
    have nk: "(2::real) powr of_int k < real n" using ye(1) yn True by simp
    have "real n \<le> real (2 ^ 53)" using n53 by (simp only: of_nat_le_iff)
    then have "real n \<le> (2::real) powr 53" by simp
    with nk have "(2::real) powr of_int k < (2::real) powr 53" by linarith
    then have "real_of_int k < 53"
      by (simp only: powr_less_cancel_iff one_less_numeral_iff semiring_norm)
    then have k52: "k \<le> 52" by simp
    define j where "j = nat (52 - k)"
    define N :: int where "N = int n * 2 ^ j"
    have pj: "(2::real) powr of_int (52 - k) = 2 ^ j"
    proof -
      have two: "(0::real) < 2" by simp
      have "0 \<le> 52 - k" using k52 by simp
      with powr_real_of_int [OF two, of "52 - k"] show ?thesis
        by (simp only: j_def if_True)
    qed
    have ud: "u = 1 / 2 ^ j"
    proof -
      have "of_int (e - 52) = - real_of_int (52 - k)" by (simp add: e)
      then have "u = (2::real) powr (- of_int (52 - k))" by (simp only: u_def)
      also have "\<dots> = 1 / (2::real) powr of_int (52 - k)" by (simp only: powr_minus_divide)
      finally show ?thesis by (simp only: pj)
    qed
    have Nu: "of_int N = real n / u" by (simp add: N_def ud)
    have k1: "(2::real) powr of_int (k + 1) = 2 * (2::real) powr of_int k"
      by (simp add: powr_add)
    have pk1: "p53 = 2 ^ j * (2::real) powr of_int (k + 1)"
    proof -
      have "(2::real) powr of_int (52 - k) * (2::real) powr of_int (k + 1)
          = (2::real) powr (of_int (52 - k) + of_int (k + 1))" by (simp only: powr_add)
      also have "of_int (52 - k) + real_of_int (k + 1) = 53" by simp
      finally show ?thesis by (simp only: pj p53powr)
    qed
    have half: "1 / 2 < (real n / p53) / u"
    proof -
      have "(real n / p53) / u = real n / (2::real) powr of_int (k + 1)"
        by (simp add: ud pk1)
      moreover have "1 / 2 < real n / (2::real) powr of_int (k + 1)"
      proof -
        define d where "d = (2::real) powr of_int k"
        have dpos: "0 < d" by (simp add: d_def)
        have dn: "d < real n" using nk by (simp only: d_def)
        have "1 / 2 < real n / (2 * d)" using dpos dn by (simp add: field_simps)
        then show ?thesis by (simp only: k1 d_def)
      qed
      ultimately show ?thesis by (simp only:)
    qed
    have "y / u \<le> (real n - real n / p53) / u"
      using yub upos by (simp only: divide_right_mono less_imp_le)
    also have "\<dots> = of_int N - (real n / p53) / u"
      by (simp only: Nu diff_divide_distrib)
    also have "\<dots> < of_int N - 1 / 2" using half by simp
    finally have "rne (y / u) \<le> N - 1" by (rule rne_le_pred)
    then have "(of_int (rne (y / u)) :: real) \<le> of_int (N - 1)" by (simp only: of_int_le_iff)
    then have "u * of_int (rne (y / u)) \<le> u * of_int (N - 1)"
      using upos by (simp only: mult_le_cancel_left_pos)
    also have "\<dots> = real n - u" using upos by (simp add: Nu algebra_simps)
    also have "\<dots> < real n" using upos by simp
    finally show ?thesis by (simp only: b64)
  next
    case False
    with eyk have "ey \<le> k - 1" by simp
    then have e1: "e + 1 \<le> k" using k0 by (simp add: e_def)
    have "u * of_int (rne (y / u)) \<le> u * of_int (2 ^ 53)"
      using q53 by (intro rnd_le) (simp only: p53int)
    then have le53: "u * of_int (rne (y / u)) \<le> (2::real) powr of_int (e + 1)"
      by (simp only: p53int [symmetric] u53)
    have pk: "(2::real) powr of_int (e + 1) \<le> (2::real) powr of_int k"
      using e1 by (intro powr_mono) simp_all
    show ?thesis
    proof (cases "(2::real) powr of_int (e + 1) < real n")
      case True
      with le53 show ?thesis by (simp only: b64)
    next
      case nl: False
      with pk kn(1) have neq: "real n = (2::real) powr of_int (e + 1)" by linarith
      have u': "u * p53 = real n" by (simp only: u53 neq)
      have nu: "real n / p53 = u" using u' [symmetric] p53pos by simp
      have "y \<le> u * p53 - u" using yub nu u' by linarith
      also have "\<dots> = u * (p53 - 1)" by (simp add: algebra_simps)
      finally have "y / u \<le> (u * (p53 - 1)) / u"
        using upos by (simp only: divide_right_mono less_imp_le)
      also have "\<dots> = p53 - 1" using upos by simp
      also have "\<dots> = of_int (2 ^ 53 - 1)" by (simp add: p53_def)
      finally have "u * of_int (rne (y / u)) \<le> u * of_int (2 ^ 53 - 1)" by (rule rnd_le)
      also have "\<dots> = u * (p53 - 1)" by (simp add: p53_def)
      also have "\<dots> = u * p53 - u" by (simp add: algebra_simps)
      also have "\<dots> = real n - u" by (simp only: u')
      also have "\<dots> < real n" using upos by simp
      finally show ?thesis by (simp only: b64)
    qed
  qed
qed

lemma index_binary64_in_range:
  assumes "items \<noteq> []" and "length items \<le> 2 ^ 53"
    and "0 \<le> r" and "r \<le> 1 - 1 / 2 ^ 53"
  shows "0 \<le> \<lfloor>binary64 (r * real (length items))\<rfloor>"
    and "\<lfloor>binary64 (r * real (length items))\<rfloor> < int (length items)"
proof -
  have n: "1 \<le> length items" using assms(1) by (cases items) simp_all
  have "0 \<le> binary64 (r * real (length items))"
    using assms(3) by (intro binary64_nonneg) simp
  then show "0 \<le> \<lfloor>binary64 (r * real (length items))\<rfloor>" by simp
  from binary64_product_less [OF assms(3,4) n assms(2)]
  show "\<lfloor>binary64 (r * real (length items))\<rfloor> < int (length items)"
    by (simp add: floor_less_iff)
qed

text \<open>The same for the time to live of a particle, \<open>90 + \<lfloor>r * 60\<rfloor>\<close>.\<close>

lemma ttl_binary64_in_range:
  assumes "0 \<le> r" and "r \<le> 1 - 1 / 2 ^ 53"
  shows "90 \<le> 90 + \<lfloor>binary64 (r * 60)\<rfloor>" and "90 + \<lfloor>binary64 (r * 60)\<rfloor> < 150"
proof -
  have "0 \<le> binary64 (r * 60)" using assms(1) by (intro binary64_nonneg) simp
  then show "90 \<le> 90 + \<lfloor>binary64 (r * 60)\<rfloor>" by simp
  have "binary64 (r * real 60) < real 60"
    using assms by (intro binary64_product_less) simp_all
  then have "binary64 (r * 60) < 60" by simp
  then show "90 + \<lfloor>binary64 (r * 60)\<rfloor> < 150" by (simp add: floor_less_iff)
qed

end
